theory Spec2Isabelle
  imports Main
begin

section \<open>Values owned elsewhere: shared and weak pointers\<close>

text \<open>
  The cache of \<^verbatim>\<open>main.cpp\<close> stores \<^verbatim>\<open>std::weak_ptr<V>\<close> handles to values
  that the callers own through \<^verbatim>\<open>std::shared_ptr<V>\<close>. Only the identity of the
  pointee and its strong use count are observed by the cache, so a pointer is the address
  of its control block, or nothing for a null/empty pointer, and the strong use counts
  are an input of every operation that asks for them: they change between two calls
  whenever an owner outside the cache drops or copies a handle.
\<close>

type_synonym addr = nat
type_synonym shared_ptr = "addr option"
type_synonym weak_ptr = "addr option"
type_synonym use_counts = "addr \<Rightarrow> nat"

text \<open>\<^verbatim>\<open>steady_clock::time_point\<close>: a tick count, only ever compared and stored.\<close>

type_synonym time_point = nat

text \<open>\<^verbatim>\<open>weak_ptr::expired()\<close> is \<^verbatim>\<open>use_count() == 0\<close>; an empty weak pointer has use count 0.\<close>

definition expired :: "use_counts \<Rightarrow> weak_ptr \<Rightarrow> bool" where
  "expired h w = (case w of None \<Rightarrow> True | Some a \<Rightarrow> h a = 0)"

text \<open>\<^verbatim>\<open>weak_ptr::lock()\<close>: a null shared pointer when expired, a strong handle otherwise.\<close>

definition lock :: "use_counts \<Rightarrow> weak_ptr \<Rightarrow> shared_ptr" where
  "lock h w = (if expired h w then None else w)"

section \<open>Cache entries\<close>

record CacheEntry =
  value_ptr :: weak_ptr
  created_at :: time_point
  last_accessed_at :: time_point

text \<open>\<^verbatim>\<open>void Access() { last_accessed_at = steady_clock::now(); }\<close>, the clock reading given.\<close>

definition Access :: "time_point \<Rightarrow> CacheEntry \<Rightarrow> CacheEntry" where
  "Access now e = e\<lparr>last_accessed_at := now\<rparr>"

text \<open>
  \<^verbatim>\<open>CacheEntry(const std::shared_ptr<V> v) : value(v), created_at(now()) { Access(); }\<close>
  reads the clock twice: once in the member initialiser and once in \<^verbatim>\<open>Access\<close>. The
  default-initialised \<^verbatim>\<open>last_accessed_at\<close> is the epoch until \<^verbatim>\<open>Access\<close> overwrites it.
\<close>

definition CacheEntry_init :: "shared_ptr \<Rightarrow> time_point \<Rightarrow> time_point \<Rightarrow> CacheEntry" where
  "CacheEntry_init v now1 now2 =
     Access now2 \<lparr>value_ptr = v, created_at = now1, last_accessed_at = 0\<rparr>"

section \<open>The entry table\<close>

text \<open>
  \<^verbatim>\<open>std::unordered_map<K, CacheEntry>\<close> is a list of key/entry pairs in iteration order.
  An iterator is a position in that list: \<^verbatim>\<open>begin()\<close> is 0 and \<^verbatim>\<open>end()\<close> is the length.
  The keys of a table are pairwise different.
\<close>

type_synonym 'k table = "('k \<times> CacheEntry) list"

definition keys_distinct :: "'k table \<Rightarrow> bool" where
  "keys_distinct tbl = distinct (map fst tbl)"

text \<open>\<^verbatim>\<open>find(key)\<close>: the position of the key, or \<^verbatim>\<open>end()\<close>.\<close>

fun find_key :: "'k \<Rightarrow> 'k table \<Rightarrow> nat" where
  "find_key key [] = 0"
| "find_key key (x # xs) = (if fst x = key then 0 else Suc (find_key key xs))"

text \<open>
  \<^verbatim>\<open>erase(it)\<close> of a dereferenceable iterator: the element goes, the others keep their
  relative order. Erasing \<^verbatim>\<open>end()\<close> is undefined behaviour, so every caller below
  decides that case before it calls \<open>erase\<close>.
\<close>

definition erase :: "nat \<Rightarrow> 'a list \<Rightarrow> 'a list" where
  "erase it tbl = take it tbl @ drop (Suc it) tbl"

text \<open>
  \<^verbatim>\<open>cache_[key] = e\<close>: an existing key keeps its place and gets the new entry. A new
  key is placed where the hash layout of the implementation puts it; that place is the
  input \<open>slot\<close> (clipped to the length of the table).
\<close>

definition assign :: "'k \<Rightarrow> CacheEntry \<Rightarrow> nat \<Rightarrow> 'k table \<Rightarrow> 'k table" where
  "assign key e slot tbl =
     (let it = find_key key tbl in
      if it \<noteq> length tbl then tbl[it := (key, e)]
      else take slot tbl @ (key, e) # drop slot tbl)"

section \<open>Eviction policies\<close>

text \<open>
  \<^verbatim>\<open>CachePolicy\<close> is the abstract interface; \<^verbatim>\<open>LRUPolicy\<close> is its only implementation
  in the repository.
\<close>

datatype CachePolicy = LRUPolicy

text \<open>
  The scan of \<^verbatim>\<open>LRUPolicy::Evict\<close>:
  \<^verbatim>\<open>for (auto it = cache.begin(); it != cache.end(); ++it)
       if (it->second.last_accessed_at < lru->second.last_accessed_at) lru = it;\<close>
\<close>

function lru_scan :: "'k table \<Rightarrow> nat \<Rightarrow> nat \<Rightarrow> nat" where
  "lru_scan tbl lru it =
     (if it < length tbl
      then lru_scan tbl
             (if last_accessed_at (snd (tbl ! it)) < last_accessed_at (snd (tbl ! lru))
              then it else lru)
             (Suc it)
      else lru)"
  by pat_completeness auto
termination
  by (relation "measure (\<lambda>(tbl, lru, it). length tbl - it)") auto

declare lru_scan.simps [simp del]

definition LRUPolicy_Evict :: "'k table \<Rightarrow> 'k table" where
  "LRUPolicy_Evict tbl =
     (let lru = lru_scan tbl 0 0 in
      if lru \<noteq> length tbl then erase lru tbl else tbl)"

text \<open>The virtual call \<^verbatim>\<open>policy_->Evict(cache_)\<close>.\<close>

fun Evict :: "CachePolicy \<Rightarrow> 'k table \<Rightarrow> 'k table" where
  "Evict LRUPolicy tbl = LRUPolicy_Evict tbl"

section \<open>The cache\<close>

text \<open>
  The fields of \<^verbatim>\<open>ObjectCache\<close> without the trailing underscore of the source. The
  mutex is not a field of this record: what each method does with it is the subject of the
  section on the mutex below.
\<close>

record 'k ObjectCache =
  cache :: "'k table"
  policy :: "CachePolicy option"
  max_size :: nat

datatype error = UndefinedBehaviour

text \<open>
  \<^verbatim>\<open>explicit ObjectCache(size_t max_size = 1000) : max_size_(max_size) {}\<close>. The result
  type has a place for a failure; the constructor has no failing branch.
\<close>

definition ObjectCache_init :: "nat \<Rightarrow> error + 'k ObjectCache" where
  "ObjectCache_init n = Inr \<lparr>cache = [], policy = None, max_size = n\<rparr>"

definition SetPolicy :: "CachePolicy option \<Rightarrow> 'k ObjectCache \<Rightarrow> 'k ObjectCache" where
  "SetPolicy new_policy c = c\<lparr>policy := new_policy\<rparr>"

text \<open>The loop of \<^verbatim>\<open>CleanupExpired\<close>, walking the table from \<^verbatim>\<open>begin()\<close>.\<close>

fun sweep :: "use_counts \<Rightarrow> 'k table \<Rightarrow> 'k table" where
  "sweep h [] = []"
| "sweep h (x # xs) =
     (if expired h (value_ptr (snd x)) then sweep h xs else x # sweep h xs)"

definition CleanupExpired :: "use_counts \<Rightarrow> 'k ObjectCache \<Rightarrow> 'k ObjectCache" where
  "CleanupExpired h c = c\<lparr>cache := sweep h (cache c)\<rparr>"

text \<open>
  \<^verbatim>\<open>Put\<close>: the sweep, then the eviction, then the assignment. No branch reads
  \<^verbatim>\<open>max_size_\<close>. Without a policy the code runs \<^verbatim>\<open>cache_.erase(cache_.begin())\<close>,
  which on an empty table erases \<^verbatim>\<open>end()\<close>: undefined behaviour, the error of the model.
  The inputs are the use counts during the call, the two clock readings of the entry's
  constructor and the place the table gives a new key.
\<close>

definition Put ::
  "use_counts \<Rightarrow> time_point \<Rightarrow> time_point \<Rightarrow> nat \<Rightarrow> 'k \<Rightarrow> shared_ptr \<Rightarrow> 'k ObjectCache
     \<Rightarrow> error + 'k ObjectCache" where
  "Put h now1 now2 slot key v c =
     (let c1 = CleanupExpired h c in
      case (case policy c1 of
              Some p \<Rightarrow> Inr (c1\<lparr>cache := Evict p (cache c1)\<rparr>)
            | None \<Rightarrow>
                if cache c1 = [] then Inl UndefinedBehaviour
                else Inr (c1\<lparr>cache := erase 0 (cache c1)\<rparr>)) of
        Inl err \<Rightarrow> Inl err
      | Inr c2 \<Rightarrow>
          Inr (c2\<lparr>cache := assign key (CacheEntry_init v now1 now2) slot (cache c2)\<rparr>))"

text \<open>\<^verbatim>\<open>Get\<close> returns \<^verbatim>\<open>std::optional<std::shared_ptr<V>>\<close> and the cache after the call.\<close>

definition Get ::
  "use_counts \<Rightarrow> time_point \<Rightarrow> 'k \<Rightarrow> 'k ObjectCache \<Rightarrow> shared_ptr option \<times> 'k ObjectCache" where
  "Get h now key c =
     (let it = find_key key (cache c) in
      if it = length (cache c) then (None, c)
      else if expired h (value_ptr (snd (cache c ! it)))
      then (None, c\<lparr>cache := erase it (cache c)\<rparr>)
      else (Some (lock h (value_ptr (snd (cache c ! it)))),
            c\<lparr>cache := (cache c)[it := (fst (cache c ! it), Access now (snd (cache c ! it)))]\<rparr>))"

text \<open>The \<^verbatim>\<open>const\<close> methods return their result and the cache they leave behind.\<close>

definition Size :: "'k ObjectCache \<Rightarrow> nat \<times> 'k ObjectCache" where
  "Size c = (length (cache c), c)"

definition Clear :: "'k ObjectCache \<Rightarrow> 'k ObjectCache" where
  "Clear c = c\<lparr>cache := []\<rparr>"

definition Contains :: "use_counts \<Rightarrow> 'k \<Rightarrow> 'k ObjectCache \<Rightarrow> bool \<times> 'k ObjectCache" where
  "Contains h key c =
     (let it = find_key key (cache c) in
      if find_key key (cache c) \<noteq> length (cache c)
         \<and> \<not> expired h (value_ptr (snd (cache c ! it)))
      then (True, c) else (False, c))"

section \<open>Runs of the interface\<close>

text \<open>
  A sequence of \<^verbatim>\<open>Put\<close> calls, each with its own inputs (use counts, clock readings,
  slot, key, value). The run stops at the first call that does not return.
\<close>

type_synonym 'k put_call = "use_counts \<times> time_point \<times> time_point \<times> nat \<times> 'k \<times> shared_ptr"

fun Puts :: "'k put_call list \<Rightarrow> 'k ObjectCache \<Rightarrow> error + 'k ObjectCache" where
  "Puts [] c = Inr c"
| "Puts ((h, now1, now2, slot, key, v) # calls) c =
     (case Put h now1 now2 slot key v c of
        Inl err \<Rightarrow> Inl err
      | Inr c' \<Rightarrow> Puts calls c')"

text \<open>A sequence of \<^verbatim>\<open>Contains\<close> queries, each with its own use counts and key.\<close>

fun Contains_all :: "(use_counts \<times> 'k) list \<Rightarrow> 'k ObjectCache \<Rightarrow> 'k ObjectCache" where
  "Contains_all [] c = c"
| "Contains_all ((h, key) # qs) c = Contains_all qs (snd (Contains h key c))"

text \<open>
  The body of \<^verbatim>\<open>TestLRU\<close> on a cache of \<open>n\<close> entries, with the keys and values as
  parameters: \<^verbatim>\<open>SetPolicy(LRUPolicy); Put(a, v1); Put(b, v2); Get(a); Put(c, v3)\<close>, then
  the three \<^verbatim>\<open>Contains\<close> answers for \<open>a\<close>, \<open>b\<close> and \<open>c\<close>. The clock readings
  \<open>t1, ..., t7\<close> and the slots \<open>s1, s2, s3\<close> are inputs.
\<close>

definition TestLRU ::
  "nat \<Rightarrow> use_counts \<Rightarrow> 'k \<Rightarrow> 'k \<Rightarrow> 'k \<Rightarrow> shared_ptr \<Rightarrow> shared_ptr \<Rightarrow> shared_ptr
     \<Rightarrow> time_point \<Rightarrow> time_point \<Rightarrow> time_point \<Rightarrow> time_point \<Rightarrow> time_point \<Rightarrow> time_point
     \<Rightarrow> time_point \<Rightarrow> nat \<Rightarrow> nat \<Rightarrow> nat
     \<Rightarrow> error + (bool \<times> bool \<times> bool)" where
  "TestLRU n h a b c v1 v2 v3 t1 t2 t3 t4 t5 t6 t7 s1 s2 s3 =
     (case ObjectCache_init n of
        Inl err \<Rightarrow> Inl err
      | Inr c0 \<Rightarrow>
     (case Put h t1 t2 s1 a v1 (SetPolicy (Some LRUPolicy) c0) of
        Inl err \<Rightarrow> Inl err
      | Inr c1 \<Rightarrow>
     (case Put h t3 t4 s2 b v2 c1 of
        Inl err \<Rightarrow> Inl err
      | Inr c2 \<Rightarrow>
     (case Put h t6 t7 s3 c v3 (snd (Get h t5 a c2)) of
        Inl err \<Rightarrow> Inl err
      | Inr c3 \<Rightarrow>
          Inr (fst (Contains h a c3), fst (Contains h b c3), fst (Contains h c c3))))))"

section \<open>The specification's \<open>Put\<close>\<close>

text \<open>
  The steps of \<^verbatim>\<open>Put\<close> as the specification words them, for comparison with \<open>Put\<close>
  above: sweep the expired entries; if the size of the table is still at least the
  capacity, invoke the policy's evict once (without a policy, remove the first entry);
  then insert or overwrite the entry of the key with a fresh one whose two timestamps are
  the current time.
\<close>

definition Put_spec ::
  "use_counts \<Rightarrow> time_point \<Rightarrow> nat \<Rightarrow> 'k \<Rightarrow> shared_ptr \<Rightarrow> 'k ObjectCache \<Rightarrow> 'k ObjectCache" where
  "Put_spec h now slot key v c =
     (let c1 = CleanupExpired h c;
          c2 = (if max_size c1 \<le> length (cache c1)
                then (case policy c1 of
                        Some p \<Rightarrow> c1\<lparr>cache := Evict p (cache c1)\<rparr>
                      | None \<Rightarrow> c1\<lparr>cache := erase 0 (cache c1)\<rparr>)
                else c1)
      in c2\<lparr>cache :=
              assign key \<lparr>value_ptr = v, created_at = now, last_accessed_at = now\<rparr> slot
                (cache c2)\<rparr>)"

section \<open>The mutex\<close>

text \<open>
  What a call does with \<^verbatim>\<open>mutex_\<close>, \<^verbatim>\<open>cache_\<close> and \<^verbatim>\<open>policy_\<close>, in program order.
  The constructor of a \<^verbatim>\<open>std::lock_guard<std::mutex>\<close> is \<open>Acquire\<close>; its destructor,
  run at every exit of the enclosing scope, is \<open>Release\<close>; a statement that reads or
  writes the table is \<open>TouchTable\<close>, one that reads or writes the policy pointer is
  \<open>TouchPolicy\<close>.
\<close>

datatype step = Acquire | Release | TouchTable | TouchPolicy











section \<open>Example data\<close>

text \<open>Every object has one strong owner outside the cache.\<close>

definition all_alive :: use_counts where
  "all_alive = (\<lambda>_. 1)"

text \<open>The owner of object 2 has gone; every other object has one owner.\<close>

definition two_dropped :: use_counts where
  "two_dropped = (\<lambda>a. if a = 2 then 0 else 1)"

definition entry :: "addr \<Rightarrow> time_point \<Rightarrow> CacheEntry" where
  "entry a t = \<lparr>value_ptr = Some a, created_at = t, last_accessed_at = t\<rparr>"

text \<open>Three entries; the two least recently used ones tie.\<close>

definition tied_table :: "string table" where
  "tied_table = [(''a'', entry 1 5), (''b'', entry 2 3), (''c'', entry 3 3)]"

definition tied_cache :: "string ObjectCache" where
  "tied_cache = \<lparr>cache = tied_table, policy = Some LRUPolicy, max_size = 3\<rparr>"

text \<open>Three \<^verbatim>\<open>Put\<close> calls with different keys, every value alive.\<close>

definition three_puts :: "string put_call list" where
  "three_puts = [(all_alive, 1, 2, 0, ''a'', Some 1), (all_alive, 3, 4, 1, ''b'', Some 2),
                 (all_alive, 5, 6, 0, ''c'', Some 3)]"

section \<open>The scan of the least recently used entry\<close>

lemma lru_scan_empty: "lru_scan [] lru it = lru"
  by (simp add: lru_scan.simps)

text \<open>
  The loop invariant: \<open>lru\<close> is a position of the table whose timestamp is least among
  the positions before \<open>it\<close>, and strictly less than every timestamp before \<open>lru\<close>.
\<close>

lemma lru_scan_inv:
  "lru < length tbl \<Longrightarrow>
   (\<forall>j<it. last_accessed_at (snd (tbl ! lru)) \<le> last_accessed_at (snd (tbl ! j))) \<Longrightarrow>
   (\<forall>j<lru. last_accessed_at (snd (tbl ! lru)) < last_accessed_at (snd (tbl ! j))) \<Longrightarrow>
   lru_scan tbl lru it < length tbl \<and>
   (\<forall>j<length tbl. last_accessed_at (snd (tbl ! lru_scan tbl lru it))
       \<le> last_accessed_at (snd (tbl ! j))) \<and>
   (\<forall>j<lru_scan tbl lru it. last_accessed_at (snd (tbl ! lru_scan tbl lru it))
       < last_accessed_at (snd (tbl ! j)))"
proof (induction tbl lru it rule: lru_scan.induct)
  case (1 tbl lru it)
  let ?t = "\<lambda>i. last_accessed_at (snd (tbl ! i))"
  show ?case
  proof (cases "it < length tbl")
    case False
    then have "lru_scan tbl lru it = lru" by (simp add: lru_scan.simps)
    with False "1.prems" show ?thesis by simp
  next
    case True
    let ?lru' = "if ?t it < ?t lru then it else lru"
    have step: "lru_scan tbl lru it = lru_scan tbl ?lru' (Suc it)"
      using True by (subst lru_scan.simps) simp
    have a: "?lru' < length tbl" using True "1.prems"(1) by simp
    have b: "\<forall>j<Suc it. ?t ?lru' \<le> ?t j"
      using "1.prems"(2) by (auto simp: less_Suc_eq intro: less_imp_le order_trans)
    have c: "\<forall>j<?lru'. ?t ?lru' < ?t j"
      using "1.prems"(2,3) by (auto intro: less_le_trans)
    from "1.IH"[OF True a b c] show ?thesis unfolding step .
  qed
qed

lemma length_erase: "i < length xs \<Longrightarrow> length (erase i xs) = length xs - 1"
  by (simp add: erase_def min_def)

lemma LRUPolicy_Evict_Nil: "LRUPolicy_Evict [] = []"
  by (simp add: LRUPolicy_Evict_def lru_scan_empty)

lemma LRUPolicy_Evict_erase:
  "tbl \<noteq> [] \<Longrightarrow> lru_scan tbl 0 0 < length tbl \<and> LRUPolicy_Evict tbl = erase (lru_scan tbl 0 0) tbl"
  using lru_scan_inv[of 0 tbl 0] by (simp add: LRUPolicy_Evict_def)

text \<open>
  Claim C4. \<^verbatim>\<open>LRUPolicy::Evict\<close> on an empty table removes nothing. On a non-empty
  table it removes exactly one entry, at a position \<open>i\<close> whose \<^verbatim>\<open>last_accessed_at\<close> is
  least in the table; every entry before \<open>i\<close> in iteration order has a strictly larger
  timestamp, so among tied entries the first one met is the one removed.
\<close>

theorem LRUPolicy_Evict_removes_first_least_recent:
  "Evict LRUPolicy ([] :: 'k table) = [] \<and>
   (tbl \<noteq> [] \<longrightarrow>
     (\<exists>i<length tbl.
        Evict LRUPolicy tbl = erase i tbl \<and>
        length (Evict LRUPolicy tbl) = length tbl - 1 \<and>
        (\<forall>j<length tbl. last_accessed_at (snd (tbl ! i)) \<le> last_accessed_at (snd (tbl ! j))) \<and>
        (\<forall>j<i. last_accessed_at (snd (tbl ! i)) < last_accessed_at (snd (tbl ! j)))))"
proof (intro conjI impI)
  show "Evict LRUPolicy ([] :: 'k table) = []"
    by (simp add: LRUPolicy_Evict_Nil)
next
  assume ne: "tbl \<noteq> []"
  let ?i = "lru_scan tbl 0 0"
  from ne have "0 < length tbl" by simp
  from lru_scan_inv[OF this, of 0] have
    least: "\<forall>j<length tbl. last_accessed_at (snd (tbl ! ?i)) \<le> last_accessed_at (snd (tbl ! j))"
    and first: "\<forall>j<?i. last_accessed_at (snd (tbl ! ?i)) < last_accessed_at (snd (tbl ! j))"
    by simp_all
  from LRUPolicy_Evict_erase[OF ne] have i: "?i < length tbl"
    and ev: "Evict LRUPolicy tbl = erase ?i tbl"
    by simp_all
  from i ev least first length_erase[OF i]
  show "\<exists>i<length tbl.
        Evict LRUPolicy tbl = erase i tbl \<and>
        length (Evict LRUPolicy tbl) = length tbl - 1 \<and>
        (\<forall>j<length tbl. last_accessed_at (snd (tbl ! i)) \<le> last_accessed_at (snd (tbl ! j))) \<and>
        (\<forall>j<i. last_accessed_at (snd (tbl ! i)) < last_accessed_at (snd (tbl ! j)))"
    by (intro exI[of _ ?i]) simp
qed

text \<open>
  On the table \<open>a \<mapsto> 5, b \<mapsto> 3, c \<mapsto> 3\<close> the theorem leaves one choice: \<open>b\<close>, the first
  of the two tied entries.
\<close>

theorem LRUPolicy_Evict_removes_first_least_recent_witness:
  "tied_table \<noteq> [] \<and> Evict LRUPolicy tied_table = [(''a'', entry 1 5), (''c'', entry 3 3)]"
proof -
  have ne: "tied_table \<noteq> []" by (simp add: tied_table_def)
  from LRUPolicy_Evict_removes_first_least_recent[of tied_table] ne
  obtain i where i: "i < length tied_table"
    and ev: "Evict LRUPolicy tied_table = erase i tied_table"
    and least: "\<forall>j<length tied_table.
        last_accessed_at (snd (tied_table ! i)) \<le> last_accessed_at (snd (tied_table ! j))"
    and first: "\<forall>j<i.
        last_accessed_at (snd (tied_table ! i)) < last_accessed_at (snd (tied_table ! j))"
    by blast
  from i have "i = 0 \<or> i = 1 \<or> i = 2" by (auto simp: tied_table_def)
  moreover have "i \<noteq> 0"
  proof
    assume "i = 0"
    with least[rule_format, of 1] show False by (simp add: tied_table_def entry_def)
  qed
  moreover have "i \<noteq> 2"
  proof
    assume "i = 2"
    with first[rule_format, of 1] show False by (simp add: tied_table_def entry_def)
  qed
  ultimately have "i = 1" by blast
  with ev ne show ?thesis by (simp add: tied_table_def erase_def)
qed

section \<open>The sweep of expired entries\<close>

lemma sweep_filter: "sweep h tbl = filter (\<lambda>x. \<not> expired h (value_ptr (snd x))) tbl"
  by (induction tbl) simp_all

lemma length_sweep: "length (sweep h tbl) \<le> length tbl"
  by (simp add: sweep_filter)

text \<open>
  Claim C8. \<^verbatim>\<open>CleanupExpired\<close> removes every entry whose weak pointer is expired and
  keeps the others, in their order; the policy and the capacity are not touched. With the
  same use counts, a second call right after the first changes nothing and removes no
  entry.
\<close>

theorem CleanupExpired_removes_expired_idempotent:
  "cache (CleanupExpired h c) = filter (\<lambda>x. \<not> expired h (value_ptr (snd x))) (cache c) \<and>
   policy (CleanupExpired h c) = policy c \<and>
   max_size (CleanupExpired h c) = max_size c \<and>
   CleanupExpired h (CleanupExpired h c) = CleanupExpired h c \<and>
   fst (Size (CleanupExpired h (CleanupExpired h c))) = fst (Size (CleanupExpired h c))"
  by (simp add: CleanupExpired_def sweep_filter Size_def)

text \<open>When the owner of the value of \<open>b\<close> has gone, the sweep of \<open>a, b, c\<close> leaves \<open>a, c\<close>.\<close>

theorem CleanupExpired_removes_expired_idempotent_witness:
  "CleanupExpired two_dropped tied_cache =
     tied_cache\<lparr>cache := [(''a'', entry 1 5), (''c'', entry 3 3)]\<rparr> \<and>
   CleanupExpired two_dropped (CleanupExpired two_dropped tied_cache) =
     tied_cache\<lparr>cache := [(''a'', entry 1 5), (''c'', entry 3 3)]\<rparr>"
  using CleanupExpired_removes_expired_idempotent[of two_dropped tied_cache]
  by (simp add: tied_cache_def tied_table_def entry_def two_dropped_def expired_def)

section \<open>Construction\<close>

text \<open>
  Claim C7 says that a capacity of 0 is rejected at construction. The constructor has no
  check: with 0 it returns an empty cache whose \<^verbatim>\<open>max_size_\<close> is 0.
\<close>

theorem ObjectCache_init_zero_succeeds:
  "ObjectCache_init 0 = (Inr \<lparr>cache = [], policy = None, max_size = 0\<rparr> :: error + string ObjectCache)
   \<and> \<not> isl (ObjectCache_init 0 :: error + string ObjectCache)"
  by (simp add: ObjectCache_init_def)

text \<open>
  Claim C7, amended. Construction succeeds for every capacity, 0 included, and yields an
  empty table, no policy, and the capacity stored as given.
\<close>

theorem ObjectCache_init_always_succeeds:
  "ObjectCache_init n = Inr \<lparr>cache = [], policy = None, max_size = n\<rparr>"
  by (simp add: ObjectCache_init_def)

section \<open>Clearing the cache\<close>

lemma Evict_Nil: "Evict p [] = []"
  by (cases p) (simp add: LRUPolicy_Evict_Nil)

text \<open>
  Claim C10. \<^verbatim>\<open>Clear\<close> empties the table and leaves the policy and the capacity as
  they are, so it commutes with \<^verbatim>\<open>SetPolicy\<close>. A \<^verbatim>\<open>Put\<close> right after
  \<^verbatim>\<open>SetPolicy(p); Clear()\<close> dispatches on \<open>p\<close> without any reinstallation: with a policy
  it calls that policy's \<^verbatim>\<open>Evict\<close> on the empty table and stores the entry, and
  with the null policy it takes the branch that erases \<^verbatim>\<open>begin()\<close> of the empty table.
\<close>

theorem Clear_keeps_policy:
  "cache (Clear c) = [] \<and> policy (Clear c) = policy c \<and> max_size (Clear c) = max_size c \<and>
   Clear (SetPolicy p c) = SetPolicy p (Clear c) \<and>
   policy (Clear (SetPolicy p c)) = p \<and>
   Put h now1 now2 slot key v (Clear (SetPolicy p c)) =
     (case p of
        Some q \<Rightarrow> Inr \<lparr>cache = [(key, CacheEntry_init v now1 now2)], policy = p, max_size = max_size c\<rparr>
      | None \<Rightarrow> Inl UndefinedBehaviour)"
  by (simp add: Clear_def SetPolicy_def Put_def CleanupExpired_def Evict_Nil assign_def
      split: option.split)

section \<open>What \<open>Put\<close> evicts\<close>

text \<open>
  Claim C1 says that \<^verbatim>\<open>Put\<close> evicts only when the table, after the sweep, holds at
  least \<^verbatim>\<open>capacity\<close> entries, and that without a policy a well-defined entry goes.
  The code evicts on every call. On a cache of capacity 2 with \<^verbatim>\<open>LRUPolicy\<close>, after
  \<^verbatim>\<open>Put(a, v1); Put(b, v2)\<close> with both values alive, the table of the code holds \<open>b\<close>
  alone, where the steps of the specification keep \<open>a\<close> and \<open>b\<close>. Without a policy, the
  first \<^verbatim>\<open>Put\<close> on a new cache erases \<^verbatim>\<open>begin()\<close> of an empty table.
\<close>

theorem Put_evicts_below_capacity:
  "Puts [(all_alive, 1, 2, 0, ''a'', Some 1), (all_alive, 3, 4, 1, ''b'', Some 2)]
        (SetPolicy (Some LRUPolicy) \<lparr>cache = [], policy = None, max_size = 2\<rparr>)
     = Inr \<lparr>cache = [(''b'', \<lparr>value_ptr = Some 2, created_at = 3, last_accessed_at = 4\<rparr>)],
            policy = Some LRUPolicy, max_size = 2\<rparr> \<and>
   Put_spec all_alive 3 1 ''b'' (Some 2)
      (Put_spec all_alive 1 0 ''a'' (Some 1)
         (SetPolicy (Some LRUPolicy) \<lparr>cache = [], policy = None, max_size = 2\<rparr>))
     = \<lparr>cache = [(''a'', \<lparr>value_ptr = Some 1, created_at = 1, last_accessed_at = 1\<rparr>),
                 (''b'', \<lparr>value_ptr = Some 2, created_at = 3, last_accessed_at = 3\<rparr>)],
        policy = Some LRUPolicy, max_size = 2\<rparr> \<and>
   Put all_alive 1 2 0 ''a'' (Some 1) \<lparr>cache = [], policy = None, max_size = 2\<rparr>
     = Inl UndefinedBehaviour"
  by (simp add: SetPolicy_def Put_def Put_spec_def CleanupExpired_def
      LRUPolicy_Evict_def lru_scan.simps erase_def assign_def CacheEntry_init_def Access_def
      expired_def all_alive_def)

text \<open>
  Claim C3 says that on a cache of capacity 2 with \<^verbatim>\<open>LRUPolicy\<close> and all values alive,
  \<^verbatim>\<open>Put(a, v1); Put(b, v2); Get(a); Put(c, v3)\<close> leaves \<open>a\<close> and \<open>c\<close> present and
  \<open>b\<close> absent. In the code every \<^verbatim>\<open>Put\<close> evicts, so \<open>a\<close> is gone before \<open>b\<close> is
  stored: whatever the clock readings and the slots, only \<open>c\<close> is present at the end.
\<close>

theorem TestLRU_keeps_only_last_key:
  "TestLRU 2 all_alive ''a'' ''b'' ''c'' (Some 1) (Some 2) (Some 3) t1 t2 t3 t4 t5 t6 t7 s1 s2 s3
     = Inr (False, False, True)"
  by (simp add: TestLRU_def ObjectCache_init_def SetPolicy_def Put_def CleanupExpired_def
      LRUPolicy_Evict_def lru_scan.simps erase_def assign_def CacheEntry_init_def Access_def
      Get_def Contains_def expired_def all_alive_def)

section \<open>Looking a key up\<close>

lemma find_key_le: "find_key key tbl \<le> length tbl"
  by (induction tbl) simp_all

lemma find_key_absent: "(find_key key tbl = length tbl) = (map_of tbl key = None)"
proof (induction tbl)
  case Nil
  show ?case by simp
next
  case (Cons x xs)
  from find_key_le[of key xs] Cons show ?case by (cases x) auto
qed

lemma find_key_present:
  "map_of tbl key = Some e \<Longrightarrow> find_key key tbl < length tbl \<and> tbl ! find_key key tbl = (key, e)"
  by (induction tbl) (auto split: if_splits)

lemma erase_find_key:
  "distinct (map fst tbl) \<Longrightarrow> map_of tbl key = Some e \<Longrightarrow>
   erase (find_key key tbl) tbl = filter (\<lambda>x. fst x \<noteq> key) tbl"
proof (induction tbl)
  case Nil
  then show ?case by simp
next
  case (Cons x xs)
  show ?case
  proof (cases "fst x = key")
    case True
    with Cons.prems(1) have "\<forall>y\<in>set xs. fst y \<noteq> key" by (auto simp: image_iff)
    then have "filter (\<lambda>x. fst x \<noteq> key) xs = xs" by (simp add: filter_id_conv)
    with True show ?thesis by (simp add: erase_def)
  next
    case False
    with Cons.prems have "map_of xs key = Some e" "distinct (map fst xs)" by (cases x; auto)+
    with Cons.IH False show ?thesis by (simp add: erase_def)
  qed
qed

lemma update_find_key:
  "distinct (map fst tbl) \<Longrightarrow> map_of tbl key = Some e \<Longrightarrow>
   tbl[find_key key tbl := (key, f e)] = map (\<lambda>x. if fst x = key then (fst x, f (snd x)) else x) tbl"
proof (induction tbl)
  case Nil
  then show ?case by simp
next
  case (Cons x xs)
  show ?case
  proof (cases "fst x = key")
    case True
    with Cons.prems(1) have "\<forall>y\<in>set xs. fst y \<noteq> key" by (auto simp: image_iff)
    then have "map (\<lambda>x. if fst x = key then (fst x, f (snd x)) else x) xs = xs"
      by (simp add: map_idI)
    with True Cons.prems(2) show ?thesis by (cases x) simp
  next
    case False
    with Cons.prems have "map_of xs key = Some e" "distinct (map fst xs)" by (cases x; auto)+
    with Cons.IH False show ?thesis by simp
  qed
qed

text \<open>
  Claim C5. On a table with pairwise different keys: \<^verbatim>\<open>Get\<close> of an absent key
  returns nothing and leaves the cache as it is; \<^verbatim>\<open>Get\<close> of a key whose weak pointer
  is expired removes that entry, keeps all the others, and returns nothing; \<^verbatim>\<open>Get\<close>
  of a key whose value is alive sets the \<^verbatim>\<open>last_accessed_at\<close> of that entry to the
  clock reading, changes nothing else, and returns a non-null strong handle to the value.
\<close>

theorem Get_absent_expired_alive:
  assumes "keys_distinct (cache c)"
  shows "(map_of (cache c) key = None \<longrightarrow> Get h now key c = (None, c)) \<and>
   (\<forall>e. map_of (cache c) key = Some e \<and> expired h (value_ptr e) \<longrightarrow>
      Get h now key c = (None, c\<lparr>cache := filter (\<lambda>x. fst x \<noteq> key) (cache c)\<rparr>)) \<and>
   (\<forall>e. map_of (cache c) key = Some e \<and> \<not> expired h (value_ptr e) \<longrightarrow>
      (\<exists>a. value_ptr e = Some a \<and>
         Get h now key c =
           (Some (Some a),
            c\<lparr>cache := map (\<lambda>x. if fst x = key then (fst x, (snd x)\<lparr>last_accessed_at := now\<rparr>) else x)
                          (cache c)\<rparr>)))"
proof (intro conjI allI impI)
  assume "map_of (cache c) key = None"
  then have "find_key key (cache c) = length (cache c)" by (simp add: find_key_absent)
  then show "Get h now key c = (None, c)" by (simp add: Get_def)
next
  fix e
  assume a: "map_of (cache c) key = Some e \<and> expired h (value_ptr e)"
  from a find_key_present[of "cache c" key e]
  have it: "find_key key (cache c) < length (cache c)" "cache c ! find_key key (cache c) = (key, e)"
    by simp_all
  from a have m: "map_of (cache c) key = Some e" by simp
  from erase_find_key[OF assms[unfolded keys_distinct_def] m]
  have "erase (find_key key (cache c)) (cache c) = filter (\<lambda>x. fst x \<noteq> key) (cache c)" .
  with it a show "Get h now key c = (None, c\<lparr>cache := filter (\<lambda>x. fst x \<noteq> key) (cache c)\<rparr>)"
    by (simp add: Get_def)
next
  fix e
  assume a: "map_of (cache c) key = Some e \<and> \<not> expired h (value_ptr e)"
  from a find_key_present[of "cache c" key e]
  have it: "find_key key (cache c) < length (cache c)" "cache c ! find_key key (cache c) = (key, e)"
    by simp_all
  from a obtain p where p: "value_ptr e = Some p" by (auto simp: expired_def split: option.splits)
  from a have m: "map_of (cache c) key = Some e" by simp
  from update_find_key[OF assms[unfolded keys_distinct_def] m, of "Access now"]
  have "(cache c)[find_key key (cache c) := (key, Access now e)] =
        map (\<lambda>x. if fst x = key then (fst x, Access now (snd x)) else x) (cache c)" .
  with it a p
  have "Get h now key c =
           (Some (Some p),
            c\<lparr>cache := map (\<lambda>x. if fst x = key then (fst x, (snd x)\<lparr>last_accessed_at := now\<rparr>) else x)
                          (cache c)\<rparr>)"
    by (simp add: Get_def lock_def Access_def)
  with p show "\<exists>a. value_ptr e = Some a \<and>
         Get h now key c =
           (Some (Some a),
            c\<lparr>cache := map (\<lambda>x. if fst x = key then (fst x, (snd x)\<lparr>last_accessed_at := now\<rparr>) else x)
                          (cache c)\<rparr>)"
    by blast
qed

text \<open>
  The three cases on the table \<open>a, b, c\<close>, when the owner of the value of \<open>b\<close> has gone:
  \<open>z\<close> is absent, \<open>b\<close> is expired, \<open>a\<close> is alive.
\<close>

theorem Get_absent_expired_alive_witness:
  "keys_distinct (cache tied_cache) \<and>
   Get two_dropped 9 ''z'' tied_cache = (None, tied_cache) \<and>
   Get two_dropped 9 ''b'' tied_cache =
     (None, tied_cache\<lparr>cache := [(''a'', entry 1 5), (''c'', entry 3 3)]\<rparr>) \<and>
   Get two_dropped 9 ''a'' tied_cache =
     (Some (Some 1),
      tied_cache\<lparr>cache := [(''a'', (entry 1 5)\<lparr>last_accessed_at := 9\<rparr>), (''b'', entry 2 3),
                           (''c'', entry 3 3)]\<rparr>)"
proof -
  have d: "keys_distinct (cache tied_cache)"
    by (simp add: keys_distinct_def tied_cache_def tied_table_def)
  have z: "map_of (cache tied_cache) ''z'' = None"
    and b: "map_of (cache tied_cache) ''b'' = Some (entry 2 3) \<and> expired two_dropped (value_ptr (entry 2 3))"
    and a: "map_of (cache tied_cache) ''a'' = Some (entry 1 5) \<and> \<not> expired two_dropped (value_ptr (entry 1 5))"
    by (simp_all add: tied_cache_def tied_table_def entry_def expired_def two_dropped_def)
  from Get_absent_expired_alive[OF d, of "''z''" two_dropped 9] z
  have 1: "Get two_dropped 9 ''z'' tied_cache = (None, tied_cache)" by blast
  from Get_absent_expired_alive[OF d, of "''b''" two_dropped 9] b
  have "Get two_dropped 9 ''b'' tied_cache =
     (None, tied_cache\<lparr>cache := filter (\<lambda>x. fst x \<noteq> ''b'') (cache tied_cache)\<rparr>)" by blast
  then have 2: "Get two_dropped 9 ''b'' tied_cache =
     (None, tied_cache\<lparr>cache := [(''a'', entry 1 5), (''c'', entry 3 3)]\<rparr>)"
    by (simp add: tied_cache_def tied_table_def)
  from Get_absent_expired_alive[OF d, of "''a''" two_dropped 9] a
  obtain p where "value_ptr (entry 1 5) = Some p" and
    "Get two_dropped 9 ''a'' tied_cache =
           (Some (Some p),
            tied_cache\<lparr>cache := map (\<lambda>x. if fst x = ''a'' then (fst x, (snd x)\<lparr>last_accessed_at := 9\<rparr>) else x)
                          (cache tied_cache)\<rparr>)" by blast
  then have 3: "Get two_dropped 9 ''a'' tied_cache =
     (Some (Some 1),
      tied_cache\<lparr>cache := [(''a'', (entry 1 5)\<lparr>last_accessed_at := 9\<rparr>), (''b'', entry 2 3),
                           (''c'', entry 3 3)]\<rparr>)"
    by (simp add: tied_cache_def tied_table_def entry_def)
  from d 1 2 3 show ?thesis by simp
qed

section \<open>Membership queries\<close>

lemma Contains_state: "snd (Contains h key c) = c"
  by (simp add: Contains_def)

lemma Contains_all_state: "Contains_all qs c = c"
  by (induction qs c rule: Contains_all.induct) (simp_all add: Contains_state)

text \<open>
  Claim C6. \<^verbatim>\<open>Contains\<close> answers true exactly when the key is in the table and its
  weak pointer is not expired, and returns the cache it was given: no timestamp changes
  and no entry goes. So after any sequence of \<^verbatim>\<open>Contains\<close> queries, whatever their
  keys and the use counts at the time, \<^verbatim>\<open>LRUPolicy::Evict\<close> removes the same entry as
  before them.
\<close>

theorem Contains_pure_predicate:
  "Contains h key c = ((\<exists>e. map_of (cache c) key = Some e \<and> \<not> expired h (value_ptr e)), c) \<and>
   Contains_all qs c = c \<and>
   Evict LRUPolicy (cache (Contains_all qs c)) = Evict LRUPolicy (cache c)"
proof (intro conjI)
  show "Contains h key c = ((\<exists>e. map_of (cache c) key = Some e \<and> \<not> expired h (value_ptr e)), c)"
  proof (cases "map_of (cache c) key")
    case None
    then have "find_key key (cache c) = length (cache c)" by (simp add: find_key_absent)
    with None show ?thesis by (simp add: Contains_def)
  next
    case (Some e)
    from find_key_present[OF Some] Some show ?thesis by (simp add: Contains_def)
  qed
qed (simp_all add: Contains_all_state)

section \<open>The size of the table\<close>

lemma length_Evict: "length (Evict p tbl) \<le> length tbl - 1"
proof (cases p)
  case LRUPolicy
  show ?thesis
  proof (cases "tbl = []")
    case True
    with LRUPolicy show ?thesis by (simp add: LRUPolicy_Evict_Nil)
  next
    case False
    from LRUPolicy_Evict_erase[OF False] LRUPolicy show ?thesis by (simp add: length_erase)
  qed
qed

lemma length_assign: "length (assign key e slot tbl) \<le> Suc (length tbl)"
  by (auto simp: assign_def Let_def min_def)

lemma Put_size:
  assumes "Put h now1 now2 slot key v c = Inr c'"
  shows "length (cache c') \<le> max 1 (length (cache c)) \<and> policy c' = policy c \<and> max_size c' = max_size c"
proof (cases "policy c")
  case None
  with assms have ne: "sweep h (cache c) \<noteq> []"
    and c': "c' = c\<lparr>cache := assign key (CacheEntry_init v now1 now2) slot (erase 0 (sweep h (cache c)))\<rparr>"
    by (auto simp: Put_def CleanupExpired_def Let_def split: if_splits)
  from ne have "length (erase 0 (sweep h (cache c))) = length (sweep h (cache c)) - 1"
    by (simp add: length_erase)
  with length_sweep[of h "cache c"]
    length_assign[of key "CacheEntry_init v now1 now2" slot "erase 0 (sweep h (cache c))"] ne c'
  show ?thesis by (cases "sweep h (cache c)") auto
next
  case (Some p)
  with assms
  have c': "c' = c\<lparr>cache := assign key (CacheEntry_init v now1 now2) slot (Evict p (sweep h (cache c)))\<rparr>"
    by (auto simp: Put_def CleanupExpired_def Let_def)
  from length_sweep[of h "cache c"] length_Evict[of p "sweep h (cache c)"]
    length_assign[of key "CacheEntry_init v now1 now2" slot "Evict p (sweep h (cache c))"] c'
  show ?thesis by auto
qed

lemma Put_total: "policy c = Some p \<Longrightarrow> \<exists>c'. Put h now1 now2 slot key v c = Inr c'"
  by (simp add: Put_def CleanupExpired_def)

lemma Puts_size:
  "Puts calls c = Inr c' \<Longrightarrow>
   length (cache c') \<le> max 1 (length (cache c)) \<and> policy c' = policy c \<and> max_size c' = max_size c"
proof (induction calls c rule: Puts.induct)
  case (1 c)
  then show ?case by simp
next
  case (2 h now1 now2 slot key v calls c)
  from "2.prems" obtain c1 where p: "Put h now1 now2 slot key v c = Inr c1"
    and r: "Puts calls c1 = Inr c'"
    by (auto split: sum.splits)
  from Put_size[OF p] "2.IH"[OF p r] show ?case by auto
qed

lemma Puts_total: "policy c = Some p \<Longrightarrow> \<exists>c'. Puts calls c = Inr c'"
proof (induction calls c rule: Puts.induct)
  case (1 c)
  then show ?case by simp
next
  case (2 h now1 now2 slot key v calls c)
  from Put_total[OF "2.prems"] obtain c1 where p: "Put h now1 now2 slot key v c = Inr c1"
    by blast
  from Put_size[OF p] "2.prems" have "policy c1 = Some p" by simp
  from "2.IH"[OF p this] p show ?case by simp
qed

text \<open>
  Where \<^verbatim>\<open>Put\<close> returns, the bound on the size holds. On a cache constructed with a
  positive capacity \<open>n\<close>, with any policy set (or none), after every \<^verbatim>\<open>Put\<close> of a
  sequence that returns, the number of entries is at most \<open>n\<close>, before and after a
  sweep of the expired entries. With \<^verbatim>\<open>LRUPolicy\<close> set, every \<^verbatim>\<open>Put\<close> of every
  sequence returns.
\<close>

lemma Puts_size_le_capacity:
  assumes "0 < n" and "ObjectCache_init n = Inr c0"
  shows "(\<exists>c. Puts calls (SetPolicy (Some LRUPolicy) c0) = Inr c) \<and>
   (\<forall>k p c. Puts (take k calls) (SetPolicy p c0) = Inr c \<longrightarrow>
       max_size c = n \<and> fst (Size c) \<le> n \<and> (\<forall>h. fst (Size (CleanupExpired h c)) \<le> n))"
proof (intro conjI allI impI)
  show "\<exists>c. Puts calls (SetPolicy (Some LRUPolicy) c0) = Inr c"
    by (rule Puts_total[of _ LRUPolicy]) (simp add: SetPolicy_def)
next
  fix k p c
  assume r: "Puts (take k calls) (SetPolicy p c0) = Inr c"
  from assms(2) have c0: "cache c0 = []" "max_size c0 = n" by (auto simp: ObjectCache_init_def)
  from Puts_size[OF r] c0 have s: "length (cache c) \<le> 1" and m: "max_size c = n"
    by (simp_all add: SetPolicy_def)
  from m show "max_size c = n" .
  from s assms(1) show "fst (Size c) \<le> n" by (simp add: Size_def)
  fix h
  from s assms(1) length_sweep[of h "cache c"] show "fst (Size (CleanupExpired h c)) \<le> n"
    by (simp add: Size_def CleanupExpired_def)
qed

text \<open>Three calls on a cache of capacity 2 with \<^verbatim>\<open>LRUPolicy\<close>.\<close>

lemma Puts_size_le_capacity_example:
  "(0::nat) < 2 \<and>
   ObjectCache_init 2 = Inr (\<lparr>cache = [], policy = None, max_size = 2\<rparr> :: string ObjectCache) \<and>
   Puts three_puts (SetPolicy (Some LRUPolicy) \<lparr>cache = [], policy = None, max_size = 2\<rparr>) =
     Inr \<lparr>cache = [(''c'', \<lparr>value_ptr = Some 3, created_at = 5, last_accessed_at = 6\<rparr>)],
          policy = Some LRUPolicy, max_size = 2\<rparr> \<and>
   fst (Size \<lparr>cache = [(''c'', \<lparr>value_ptr = Some 3, created_at = 5, last_accessed_at = 6\<rparr>)],
          policy = Some LRUPolicy, max_size = 2\<rparr>) \<le> 2"
proof -
  let ?start = "\<lparr>cache = [], policy = None, max_size = 2\<rparr> :: string ObjectCache"
  let ?final = "\<lparr>cache = [(''c'', \<lparr>value_ptr = Some 3, created_at = 5, last_accessed_at = 6\<rparr>)],
          policy = Some LRUPolicy, max_size = 2\<rparr> :: string ObjectCache"
  have n: "(0::nat) < 2" by simp
  have i: "ObjectCache_init 2 = Inr ?start" by (simp add: ObjectCache_init_def)
  have r: "Puts three_puts (SetPolicy (Some LRUPolicy) ?start) = Inr ?final"
    by (simp add: three_puts_def SetPolicy_def Put_def CleanupExpired_def
      LRUPolicy_Evict_def lru_scan.simps erase_def assign_def CacheEntry_init_def Access_def
      expired_def all_alive_def)
  then have "Puts (take 3 three_puts) (SetPolicy (Some LRUPolicy) ?start) = Inr ?final"
    by (simp add: three_puts_def)
  moreover from Puts_size_le_capacity[OF n i, of three_puts]
  have "\<forall>k p c. Puts (take k three_puts) (SetPolicy p ?start) = Inr c \<longrightarrow>
       max_size c = 2 \<and> fst (Size c) \<le> 2 \<and> (\<forall>h. fst (Size (CleanupExpired h c)) \<le> 2)"
    by (rule conjunct2)
  ultimately have "fst (Size ?final) \<le> 2" by blast
  with n i r show ?thesis by simp
qed

text \<open>
  Claim C2 says that after each \<^verbatim>\<open>Put\<close> of a sequence on a cache constructed with a
  positive capacity, the call has returned and the table holds at most \<^verbatim>\<open>capacity\<close>
  entries. The cache as constructed has no policy, and its table is empty: the first
  \<^verbatim>\<open>Put\<close> of every sequence takes the branch \<^verbatim>\<open>cache_.erase(cache_.begin())\<close> on the
  empty table, which is undefined behaviour, whatever the capacity, the key and the value.
  No call of the sequence returns. \<^verbatim>\<open>LRUPolicy::Evict\<close> guards the same erase with
  \<^verbatim>\<open>lru != cache.end()\<close>; this branch does not.
\<close>

theorem Put_on_new_cache_undefined:
  "(case ObjectCache_init n of
      Inl err \<Rightarrow> Inl err
    | Inr c0 \<Rightarrow> Puts ((h, now1, now2, slot, key, v) # calls) c0) = Inl UndefinedBehaviour \<and>
   (case ObjectCache_init 2 of
      Inl err \<Rightarrow> Inl err
    | Inr c0 \<Rightarrow> Puts [(all_alive, 1, 2, 0, ''a'', Some 1)] c0) = Inl UndefinedBehaviour"
  by (simp add: ObjectCache_init_def Put_def CleanupExpired_def)

section \<open>The keys of the table stay pairwise different\<close>

lemma distinct_erase: "distinct (map fst tbl) \<Longrightarrow> distinct (map fst (erase i tbl))"
proof -
  assume d: "distinct (map fst tbl)"
  have "map fst (erase i tbl) = take i (map fst tbl) @ drop (Suc i) (map fst tbl)"
    by (simp add: erase_def take_map drop_map)
  moreover from d have "set (take i (map fst tbl)) \<inter> set (drop (Suc i) (map fst tbl)) = {}"
    by (rule set_take_disj_set_drop_if_distinct) simp
  ultimately show ?thesis using d by (simp only: distinct_append) simp
qed

lemma distinct_sweep: "distinct (map fst tbl) \<Longrightarrow> distinct (map fst (sweep h tbl))"
  by (simp add: sweep_filter distinct_map_filter)

lemma find_key_fst: "find_key key tbl < length tbl \<Longrightarrow> fst (tbl ! find_key key tbl) = key"
  by (induction tbl) (auto split: if_splits)

lemma find_key_notin: "find_key key tbl = length tbl \<Longrightarrow> key \<notin> fst ` set tbl"
  using find_key_le[of key] by (induction tbl) (auto split: if_splits)

lemma distinct_insert_at:
  assumes "distinct xs" and "k \<notin> set xs"
  shows "distinct (take n xs @ k # drop n xs)"
proof -
  from assms(1) have "set (take n xs) \<inter> set (drop n xs) = {}"
    by (rule set_take_disj_set_drop_if_distinct) simp
  moreover from assms(2) have "k \<notin> set (take n xs)" "k \<notin> set (drop n xs)"
    by (auto dest: in_set_takeD in_set_dropD)
  ultimately show ?thesis using assms(1) by simp
qed

lemma distinct_assign:
  assumes "distinct (map fst tbl)"
  shows "distinct (map fst (assign key e slot tbl))"
proof (cases "find_key key tbl = length tbl")
  case True
  from find_key_notin[OF True] have k: "key \<notin> set (map fst tbl)" by simp
  have "map fst (take slot tbl @ (key, e) # drop slot tbl) =
        take slot (map fst tbl) @ key # drop slot (map fst tbl)"
    by (simp add: take_map drop_map)
  with distinct_insert_at[OF assms k, of slot] True show ?thesis
    by (simp add: assign_def)
next
  case False
  with find_key_le[of key tbl] have lt: "find_key key tbl < length tbl" by simp
  from find_key_fst[OF lt] lt
  have "map fst (tbl[find_key key tbl := (key, e)]) = map fst tbl"
    by (simp add: map_update list_update_same_conv)
  with False assms show ?thesis by (simp add: assign_def)
qed

lemma map_fst_update_same: "map fst (tbl[i := (fst (tbl ! i), x)]) = map fst tbl"
proof (cases "i < length tbl")
  case True
  then show ?thesis by (simp add: map_update list_update_same_conv)
next
  case False
  then have "length tbl \<le> i" by simp
  then show ?thesis by (simp add: list_update_beyond)
qed

lemma distinct_Evict: "distinct (map fst tbl) \<Longrightarrow> distinct (map fst (Evict p tbl))"
  by (cases p) (simp add: LRUPolicy_Evict_def Let_def distinct_erase)

text \<open>
  The hypothesis of the theorem on \<^verbatim>\<open>Get\<close> holds of every cache the interface can
  produce: it holds of the empty table, and every operation keeps it.
\<close>

lemma keys_distinct_init: "ObjectCache_init n = Inr c \<Longrightarrow> keys_distinct (cache c)"
  by (auto simp: ObjectCache_init_def keys_distinct_def)

lemma keys_distinct_preserved:
  assumes "keys_distinct (cache c)"
  shows "keys_distinct (cache (CleanupExpired h c)) \<and>
   (\<forall>c'. Put h now1 now2 slot key v c = Inr c' \<longrightarrow> keys_distinct (cache c')) \<and>
   keys_distinct (cache (snd (Get h now key c))) \<and>
   keys_distinct (cache (Clear c)) \<and>
   keys_distinct (cache (SetPolicy p c))"
  using assms
  by (auto simp: keys_distinct_def CleanupExpired_def Put_def Get_def Clear_def SetPolicy_def Let_def
      distinct_sweep distinct_erase distinct_assign distinct_Evict map_fst_update_same
      split: option.splits if_splits)

section \<open>Which methods take the lock\<close>









end
